theory Spec2Isabelle
  imports Main
begin

section \<open>Data model of \<open>src/reactive.js\<close>\<close>

text \<open>
  The file defines one class, \<open>Component\<close>. Its instances are mutable objects that refer
  to each other (\<open>_children\<close>, \<open>_parent\<close>), so the model keeps them in an explicit store:
  an object is an address, and the heap maps every address to the fields of the object
  living there. JavaScript never frees an object that is still referenced, so the heap is
  a total function; \<open>next_addr\<close> is the first address \<open>new\<close> has not handed out yet.

  Modelling decisions:
  \<^item> \<open>_key\<close> is a string, as the default \<open>''\<close> and the \<open>typeof ... === 'string'\<close> test of
    \<open>removeChild\<close> have it;
  \<^item> \<open>_props\<close> and \<open>_state\<close> are plain objects used as dictionaries; they are modelled by
    value, as maps from property names to values;
  \<^item> an entry of the \<open>_children\<close> array is a component or \<open>null\<close>/\<open>undefined\<close> (the
    \<open>el &&\<close> guard of the source), hence \<open>addr option\<close>; the array belongs to its node
    and is modelled by value, as a list (one array shared by two nodes is not modelled);
  \<^item> \<open>_parent\<close> is \<open>undefined\<close> until the setter runs, hence \<open>addr option\<close>.
\<close>

type_synonym addr = nat

datatype jsval = JNum int | JStr string | JBool bool | JNull

type_synonym jsobj = "string \<rightharpoonup> jsval"

record component =
  key :: string
  props :: jsobj
  state :: jsobj
  children :: "addr option list"
  parent :: "addr option"

record heap =
  objs :: "addr \<Rightarrow> component"
  next_addr :: addr

text \<open>The assignment \<open>o.field = v\<close>: replace the object stored at one address.\<close>

definition upd :: "addr \<Rightarrow> (component \<Rightarrow> component) \<Rightarrow> heap \<Rightarrow> heap" where
  "upd a f h = h\<lparr>objs := (objs h)(a := f (objs h a))\<rparr>"

text \<open>The heap before any \<open>new Component(...)\<close>.\<close>

definition blank :: component where
  "blank = \<lparr>key = [], props = Map.empty, state = Map.empty, children = [], parent = None\<rparr>"

definition empty_heap :: heap where
  "empty_heap = \<lparr>objs = (\<lambda>_. blank), next_addr = 0\<rparr>"

text \<open>
  \<open>constructor(key='', props={}, children=[])\<close>. An argument that is left out (or is
  \<open>undefined\<close>) is \<open>None\<close> and takes the default. The new object gets the next free
  address; \<open>_parent\<close> is not assigned.
\<close>

definition constructor ::
  "string option \<Rightarrow> jsobj option \<Rightarrow> addr option list option \<Rightarrow> heap \<Rightarrow> addr \<times> heap" where
  "constructor k p cs h =
     (let this = next_addr h;
          obj = \<lparr>key = (case k of None \<Rightarrow> [] | Some k' \<Rightarrow> k'),
                 props = (case p of None \<Rightarrow> Map.empty | Some p' \<Rightarrow> p'),
                 state = Map.empty,
                 children = (case cs of None \<Rightarrow> [] | Some cs' \<Rightarrow> cs'),
                 parent = None\<rparr>
      in (this, \<lparr>objs = (objs h)(this := obj), next_addr = Suc this\<rparr>))"

section \<open>Child management\<close>

text \<open>\<open>Array.prototype.findIndex\<close>: the first index whose element satisfies the test, or -1.\<close>

fun findIndex :: "('a \<Rightarrow> bool) \<Rightarrow> 'a list \<Rightarrow> int" where
  "findIndex P [] = - 1"
| "findIndex P (x # xs) =
     (if P x then 0 else (let i = findIndex P xs in if i = - 1 then - 1 else i + 1))"

text \<open>
  \<open>addChild(component)\<close>:
  \<^verbatim>\<open>
  if (!component) return;
  const IDX = this._children.findIndex((el) => (el && el.key === component.key));
  if (IDX === -1) { this._children.push(component); component.parent = this; }
  else { this._children[IDX] = component; }
  \<close>
\<close>

definition addChild :: "addr \<Rightarrow> addr option \<Rightarrow> heap \<Rightarrow> heap" where
  "addChild this component h =
     (case component of
        None \<Rightarrow> h
      | Some c \<Rightarrow>
          (let IDX = findIndex
                 (\<lambda>el. case el of None \<Rightarrow> False | Some e \<Rightarrow> key (objs h e) = key (objs h c))
                 (children (objs h this))
           in if IDX = - 1
              then upd c (\<lambda>ob. ob\<lparr>parent := Some this\<rparr>)
                     (upd this (\<lambda>ob. ob\<lparr>children := children ob @ [Some c]\<rparr>) h)
              else upd this (\<lambda>ob. ob\<lparr>children := (children ob)[nat IDX := Some c]\<rparr>) h))"

text \<open>\<open>addChildren(components)\<close>: \<open>for (const CHILD of components) this.addChild(CHILD)\<close>.\<close>

fun addChildren :: "addr \<Rightarrow> addr option list \<Rightarrow> heap \<Rightarrow> heap" where
  "addChildren this [] h = h"
| "addChildren this (CHILD # components) h = addChildren this components (addChild this CHILD h)"

text \<open>
  The argument of \<open>removeChild\<close> is documented as \<open>(Component|String)\<close>; \<open>null\<close> and
  \<open>undefined\<close> are accepted too.
\<close>

datatype child_arg = ArgNull | ArgString string | ArgComponent addr

text \<open>
  The value of the expression \<open>component.key\<close> when \<open>component\<close> is a string primitive:
  strings have no property \<open>key\<close>, so the lookup yields \<open>undefined\<close> (\<open>None\<close>).
\<close>

definition string_key :: "string \<Rightarrow> string option" where
  "string_key s = None"

text \<open>
  \<open>removeChild(component)\<close>:
  \<^verbatim>\<open>
  if (!component) return;
  if (typeof component === 'string') {
    const IDX = this._children.findIndex((el) => (el && el.key === component.key));
    if (IDX !== -1) this._children.splice(IDX, 1);
  } else { this.removeChild(component.key); }
  \<close>
  The empty string is falsy, so the first line returns for it as well. In the string
  branch the test compares \<open>el.key\<close>, a string, with \<open>component.key\<close>, where \<open>component\<close>
  is the string itself.
\<close>

function removeChild :: "addr \<Rightarrow> child_arg \<Rightarrow> heap \<Rightarrow> heap" where
  "removeChild this ArgNull h = h"
| "removeChild this (ArgString s) h =
     (if s = [] then h
      else (let IDX = findIndex
                  (\<lambda>el. case el of None \<Rightarrow> False | Some e \<Rightarrow> Some (key (objs h e)) = string_key s)
                  (children (objs h this))
            in if IDX \<noteq> - 1
               then upd this (\<lambda>ob. ob\<lparr>children := take (nat IDX) (children ob) @
                                                     drop (nat IDX + 1) (children ob)\<rparr>) h
               else h))"
| "removeChild this (ArgComponent a) h = removeChild this (ArgString (key (objs h a))) h"
  by pat_completeness auto
termination
  by (relation "measure (\<lambda>(this, c, h). case c of ArgComponent _ \<Rightarrow> 1 | _ \<Rightarrow> 0)") auto

text \<open>\<open>removeChildren() { this._children = []; }\<close>\<close>

definition removeChildren :: "addr \<Rightarrow> heap \<Rightarrow> heap" where
  "removeChildren this h = upd this (\<lambda>ob. ob\<lparr>children := []\<rparr>) h"

text \<open>\<open>set parent(parent) { this._parent = parent; }\<close>\<close>

definition set_parent :: "addr \<Rightarrow> addr option \<Rightarrow> heap \<Rightarrow> heap" where
  "set_parent this p h = upd this (\<lambda>ob. ob\<lparr>parent := p\<rparr>) h"

text \<open>The components in a children array, skipping the \<open>null\<close> entries.\<close>

fun entries :: "addr option list \<Rightarrow> addr list" where
  "entries [] = []"
| "entries (None # cs) = entries cs"
| "entries (Some a # cs) = a # entries cs"

text \<open>The keys of the children of a node, in sequence order.\<close>

definition child_keys :: "heap \<Rightarrow> addr \<Rightarrow> string list" where
  "child_keys h n = map (\<lambda>a. key (objs h a)) (entries (children (objs h n)))"

section \<open>The update protocol\<close>

text \<open>
  \<open>setState\<close> and \<open>forceUpdate\<close> call \<open>this.shouldComponentUpdate\<close>,
  \<open>this.componentWillUpdate\<close>, \<open>this.render\<close> and \<open>this.componentDidUpdate\<close>, which a
  subclass may override, and a callback supplied by the caller. What \<open>this.m\<close> resolves to
  for a receiver is a parameter of the model (\<open>methods\<close>); an overriding body is arbitrary
  code that returns normally: it may change the heap, and \<open>shouldComponentUpdate\<close> also returns its verdict.
  \<open>render\<close> is not defined by \<open>Component\<close> at all, so it may be absent for a receiver,
  and calling it then throws a \<open>TypeError\<close>.

  To observe which of these functions a call invokes, in which order and with which
  arguments, every operation returns the list of its invocations beside the new heap.
\<close>

datatype event =
    ShouldComponentUpdate addr jsobj jsobj
  | ComponentWillUpdate addr jsobj jsobj
  | Render addr bool
  | ComponentDidUpdate addr jsobj jsobj
  | Callback jsobj jsobj

datatype error = TypeError

type_synonym callback = "jsobj \<Rightarrow> jsobj \<Rightarrow> heap \<Rightarrow> heap"

record methods =
  m_shouldComponentUpdate :: "addr \<Rightarrow> jsobj \<Rightarrow> jsobj \<Rightarrow> heap \<Rightarrow> bool \<times> heap"
  m_componentWillUpdate :: "addr \<Rightarrow> jsobj \<Rightarrow> jsobj \<Rightarrow> heap \<Rightarrow> heap"
  m_render :: "addr \<Rightarrow> (bool \<Rightarrow> heap \<Rightarrow> heap) option"
  m_componentDidUpdate :: "addr \<Rightarrow> jsobj \<Rightarrow> jsobj \<Rightarrow> heap \<Rightarrow> heap"

text \<open>The bodies \<open>Component\<close> itself gives them.\<close>

definition shouldComponentUpdate :: "addr \<Rightarrow> jsobj \<Rightarrow> jsobj \<Rightarrow> heap \<Rightarrow> bool \<times> heap" where
  "shouldComponentUpdate this nextProps nextState h = (True, h)"

definition componentWillUpdate :: "addr \<Rightarrow> jsobj \<Rightarrow> jsobj \<Rightarrow> heap \<Rightarrow> heap" where
  "componentWillUpdate this nextProps nextState h = h"

definition componentDidUpdate :: "addr \<Rightarrow> jsobj \<Rightarrow> jsobj \<Rightarrow> heap \<Rightarrow> heap" where
  "componentDidUpdate this prevProps prevState h = h"

definition Component_methods :: methods where
  "Component_methods =
     \<lparr>m_shouldComponentUpdate = shouldComponentUpdate,
      m_componentWillUpdate = componentWillUpdate,
      m_render = (\<lambda>_. None),
      m_componentDidUpdate = componentDidUpdate\<rparr>"

text \<open>\<open>forceUpdate() { this.render(true); }\<close>\<close>

definition forceUpdate :: "methods \<Rightarrow> addr \<Rightarrow> heap \<Rightarrow> error + heap \<times> event list" where
  "forceUpdate M this h =
     (case m_render M this of
        None \<Rightarrow> Inl TypeError
      | Some r \<Rightarrow> Inr (r True h, [Render this True]))"

text \<open>
  \<open>setState(nextState, cb)\<close>:
  \<^verbatim>\<open>
  const PREV_STATE = this._state;
  const NEW_STATE = Object.assign(Object.assign({}, PREV_STATE), nextState);
  if (this.shouldComponentUpdate(this._props, NEW_STATE)) {
    this.componentWillUpdate(this._props, NEW_STATE);
    this.render(true);
    this.componentDidUpdate(this._props, PREV_STATE);
  }
  this._state = NEW_STATE;
  if (cb) cb(PREV_STATE, this._props);
  \<close>
  \<open>Object.assign(target, source)\<close> copies every property of \<open>source\<close> over \<open>target\<close>, which
  is \<open>target ++ source\<close> on maps. \<open>this._props\<close> is read anew at each call. When
  \<open>this.render\<close> is missing the call ends with the exception: nothing is committed and
  the callback does not run.
\<close>

definition setState ::
  "methods \<Rightarrow> addr \<Rightarrow> jsobj \<Rightarrow> callback option \<Rightarrow> heap \<Rightarrow> error + heap \<times> event list" where
  "setState M this nextState cb h =
     (let PREV_STATE = state (objs h this);
          NEW_STATE = (Map.empty ++ PREV_STATE) ++ nextState;
          p0 = props (objs h this);
          (go, h1) = m_shouldComponentUpdate M this p0 NEW_STATE h;
          e1 = [ShouldComponentUpdate this p0 NEW_STATE];
          updated =
            (if go
             then (let p1 = props (objs h1 this);
                       h2 = m_componentWillUpdate M this p1 NEW_STATE h1
                   in case m_render M this of
                        None \<Rightarrow> Inl TypeError
                      | Some r \<Rightarrow>
                          (let h3 = r True h2;
                               p3 = props (objs h3 this);
                               h4 = m_componentDidUpdate M this p3 PREV_STATE h3
                           in Inr (h4, e1 @ [ComponentWillUpdate this p1 NEW_STATE,
                                             Render this True,
                                             ComponentDidUpdate this p3 PREV_STATE])))
             else Inr (h1, e1))
      in case updated of
           Inl e \<Rightarrow> Inl e
         | Inr (h4, evs) \<Rightarrow>
             (let h5 = upd this (\<lambda>ob. ob\<lparr>state := NEW_STATE\<rparr>) h4
              in case cb of
                   None \<Rightarrow> Inr (h5, evs)
                 | Some f \<Rightarrow>
                     (let p5 = props (objs h5 this)
                      in Inr (f PREV_STATE p5 h5, evs @ [Callback PREV_STATE p5]))))"

text \<open>\<open>set state(nextState) { this.setState(nextState); }\<close>: \<open>cb\<close> is \<open>undefined\<close>.\<close>

definition set_state :: "methods \<Rightarrow> addr \<Rightarrow> jsobj \<Rightarrow> heap \<Rightarrow> error + heap \<times> event list" where
  "set_state M this nextState h = setState M this nextState None h"

section \<open>Sequences of state updates\<close>

text \<open>
  A list of calls \<open>node.setState(nextState, cb)\<close> on one node, one after the other; the
  invocations of the calls are concatenated. An exception ends the sequence.
\<close>

fun setStates ::
  "methods \<Rightarrow> addr \<Rightarrow> (jsobj \<times> callback option) list \<Rightarrow> heap \<Rightarrow> error + heap \<times> event list" where
  "setStates M this [] h = Inr (h, [])"
| "setStates M this ((nextState, cb) # calls) h =
     (case setState M this nextState cb h of
        Inl e \<Rightarrow> Inl e
      | Inr (h', evs) \<Rightarrow>
          (case setStates M this calls h' of
             Inl e \<Rightarrow> Inl e
           | Inr (h'', evs') \<Rightarrow> Inr (h'', evs @ evs')))"

section \<open>Example classes\<close>

text \<open>
  A subclass that only adds a \<open>render\<close>, one that draws and leaves the heap alone:
  \<^verbatim>\<open>class Painting extends Component { render(forced) {} }\<close>
\<close>

definition painting_methods :: methods where
  "painting_methods = Component_methods\<lparr>m_render := (\<lambda>this. Some (\<lambda>forced h. h))\<rparr>"

text \<open>
  A subclass of it that vetoes every candidate state that has the property \<open>quiet\<close>:
  \<^verbatim>\<open>shouldComponentUpdate(nextProps, nextState) { return !('quiet' in nextState); }\<close>
\<close>

definition quiet_methods :: methods where
  "quiet_methods = painting_methods
     \<lparr>m_shouldComponentUpdate := (\<lambda>this nextProps nextState h. (nextState ''quiet'' = None, h))\<rparr>"

text \<open>
  A subclass whose \<open>render\<close> rebuilds the node and starts by dropping its children:
  \<^verbatim>\<open>class Clearing extends Component { render(forced) { this.removeChildren(); } }\<close>
\<close>

definition clearing_methods :: methods where
  "clearing_methods =
     Component_methods\<lparr>m_render := (\<lambda>this. Some (\<lambda>forced h. removeChildren this h))\<rparr>"

section \<open>Example heaps\<close>

text \<open>A heap holding one node made by \<open>new Component()\<close>, at address 0.\<close>

definition fresh_node :: heap where
  "fresh_node = snd (constructor None None None empty_heap)"

text \<open>
  \<^verbatim>\<open>
  a = new Component('a'); b = new Component('b'); n = new Component('n', undefined, [a, b]);
  b2 = new Component('b'); c = new Component('c');
  \<close>
  The addresses are 0 for \<open>a\<close>, 1 for \<open>b\<close>, 2 for \<open>n\<close>, 3 for \<open>b2\<close> and 4 for \<open>c\<close>.
\<close>

definition family :: heap where
  "family =
     (let (a, h1) = constructor (Some ''a'') None None empty_heap;
          (b, h2) = constructor (Some ''b'') None None h1;
          (n, h3) = constructor (Some ''n'') None (Some [Some a, Some b]) h2;
          (b2, h4) = constructor (Some ''b'') None None h3;
          (c, h5) = constructor (Some ''c'') None None h4
      in h5)"

section \<open>Sequences of operations\<close>

text \<open>
  What a program can do to the child sequences: construct nodes and call the four child
  operations, in any order. \<open>run\<close> performs a list of such steps from a heap.
\<close>

datatype op =
    New "string option" "jsobj option" "addr option list option"
  | AddChild addr "addr option"
  | AddChildren addr "addr option list"
  | RemoveChild addr child_arg
  | RemoveChildren addr

fun exec :: "op \<Rightarrow> heap \<Rightarrow> heap" where
  "exec (New k p cs) h = snd (constructor k p cs h)"
| "exec (AddChild n c) h = addChild n c h"
| "exec (AddChildren n cs) h = addChildren n cs h"
| "exec (RemoveChild n a) h = removeChild n a h"
| "exec (RemoveChildren n) h = removeChildren n h"

fun run :: "op list \<Rightarrow> heap \<Rightarrow> heap" where
  "run [] h = h"
| "run (x # xs) h = run xs (exec x h)"

text \<open>
  A step can only mention objects that exist when it runs: \<open>op_refs\<close> lists the addresses
  a step mentions, and \<open>well_formed\<close> checks them along the run.
\<close>

fun op_refs :: "op \<Rightarrow> addr list" where
  "op_refs (New k p cs) = (case cs of None \<Rightarrow> [] | Some cs' \<Rightarrow> entries cs')"
| "op_refs (AddChild n c) = n # (case c of None \<Rightarrow> [] | Some a \<Rightarrow> [a])"
| "op_refs (AddChildren n cs) = n # entries cs"
| "op_refs (RemoveChild n a) = n # (case a of ArgComponent c \<Rightarrow> [c] | _ \<Rightarrow> [])"
| "op_refs (RemoveChildren n) = [n]"

fun well_formed :: "op list \<Rightarrow> heap \<Rightarrow> bool" where
  "well_formed [] h = True"
| "well_formed (x # xs) h = ((\<forall>a\<in>set (op_refs x). a < next_addr h) \<and> well_formed xs (exec x h))"

text \<open>
  \<open>distinct_at_construction\<close>: every child array handed to the constructor holds
  components with pairwise distinct keys.
\<close>

fun distinct_new :: "op \<Rightarrow> heap \<Rightarrow> bool" where
  "distinct_new (New k p (Some cs)) h = distinct (map (\<lambda>a. key (objs h a)) (entries cs))"
| "distinct_new _ h = True"

fun distinct_at_construction :: "op list \<Rightarrow> heap \<Rightarrow> bool" where
  "distinct_at_construction [] h = True"
| "distinct_at_construction (x # xs) h = (distinct_new x h \<and> distinct_at_construction xs (exec x h))"

text \<open>
  The invariant of the child sequences: keys are pairwise distinct, and every entry is an
  object that exists.
\<close>

definition keys_inv :: "heap \<Rightarrow> bool" where
  "keys_inv h \<longleftrightarrow>
     (\<forall>n. distinct (child_keys h n)) \<and>
     (\<forall>n. \<forall>a\<in>set (entries (children (objs h n))). a < next_addr h)"

text \<open>Two nodes with the same key, handed to the constructor of a third.\<close>

definition twins :: "op list" where
  "twins = [New (Some ''a'') None None, New (Some ''a'') None None,
            New (Some ''n'') None (Some [Some 0, Some 1])]"

text \<open>A run through every kind of step.\<close>

definition script :: "op list" where
  "script = [New (Some ''a'') None None, New (Some ''b'') None None,
             New (Some ''n'') None (Some [Some 0, Some 1]), New (Some ''b'') None None,
             AddChild 2 (Some 3), New (Some ''c'') None None, AddChildren 2 [Some 4, None, Some 1],
             RemoveChild 2 (ArgString ''a''), RemoveChildren 0]"

text \<open>The node of \<open>fresh_node\<close> after its state has become \<open>{x: 1}\<close>.\<close>

definition seeded :: heap where
  "seeded = upd 0 (\<lambda>ob. ob\<lparr>state := [''x'' \<mapsto> JNum 1]\<rparr>) fresh_node"

text \<open>
  Three calls of \<open>setState\<close>; the second is vetoed by \<open>quiet_methods\<close> and
  has a callback, which sets the parent of the node.
\<close>

definition three_calls :: "(jsobj \<times> callback option) list" where
  "three_calls =
     [([''x'' \<mapsto> JNum 1], None),
      ([''quiet'' \<mapsto> JBool True], Some (\<lambda>prevState currentProps h. set_parent 0 (Some 0) h)),
      ([''x'' \<mapsto> JNum 2, ''y'' \<mapsto> JNum 3], None)]"

section \<open>Basic facts\<close>

lemma objs_upd [simp]: "objs (upd a f h) = (objs h)(a := f (objs h a))"
  by (simp add: upd_def)

lemma next_addr_upd [simp]: "next_addr (upd a f h) = next_addr h"
  by (simp add: upd_def)

lemma family_simps:
  "children (objs family 2) = [Some 0, Some 1]"
  "key (objs family 0) = ''a''" "key (objs family 1) = ''b''" "key (objs family 2) = ''n''"
  "key (objs family 3) = ''b''" "key (objs family 4) = ''c''"
  "child_keys family 2 = [''a'', ''b'']"
  by (simp_all add: family_def constructor_def empty_heap_def child_keys_def)

subsection \<open>\<open>findIndex\<close>\<close>

lemma findIndex_none: "(\<forall>x\<in>set xs. \<not> P x) \<Longrightarrow> findIndex P xs = - 1"
  by (induction xs) auto

lemma findIndex_ge: "- 1 \<le> findIndex P xs"
  by (induction xs) (auto simp: Let_def)

lemma findIndex_found:
  "findIndex P xs \<noteq> - 1 \<Longrightarrow>
     0 \<le> findIndex P xs \<and> nat (findIndex P xs) < length xs \<and> P (xs ! nat (findIndex P xs))"
proof (induction xs)
  case Nil
  then show ?case by simp
next
  case (Cons x xs)
  show ?case
  proof (cases "P x")
    case True
    then show ?thesis by simp
  next
    case False
    with Cons.prems have ne: "findIndex P xs \<noteq> - 1"
      by (auto simp: Let_def split: if_splits)
    from Cons.IH[OF ne] False ne show ?thesis
      by (simp add: Let_def nat_add_distrib)
  qed
qed

lemma findIndex_minus1_iff: "findIndex P xs = - 1 \<longleftrightarrow> (\<forall>x\<in>set xs. \<not> P x)"
proof
  assume "findIndex P xs = - 1"
  then show "\<forall>x\<in>set xs. \<not> P x"
  proof (induction xs)
    case Nil
    then show ?case by simp
  next
    case (Cons x xs)
    have "- 1 \<le> findIndex P xs" by (rule findIndex_ge)
    with Cons show ?case by (auto simp: Let_def split: if_splits)
  qed
qed (rule findIndex_none)

subsection \<open>Key lists\<close>

lemma entries_append [simp]: "entries (cs @ ds) = entries cs @ entries ds"
  by (induction cs rule: entries.induct) auto

lemma child_test_iff:
  "(\<exists>el\<in>set cs. case el of None \<Rightarrow> False | Some e \<Rightarrow> f e = k) \<longleftrightarrow> k \<in> set (map f (entries cs))"
  by (induction cs rule: entries.induct) auto

lemma keys_replace:
  "i < length cs \<Longrightarrow> cs ! i = Some e \<Longrightarrow> f e = f c \<Longrightarrow>
   map f (entries (cs[i := Some c])) = map f (entries cs)"
proof (induction cs arbitrary: i rule: entries.induct)
  case 1
  then show ?case by simp
next
  case (2 cs)
  then show ?case by (cases i) auto
next
  case (3 a cs)
  then show ?case by (cases i) auto
qed

lemma set_entries_update: "set (entries (cs[i := Some c])) \<subseteq> insert c (set (entries cs))"
proof (induction cs arbitrary: i rule: entries.induct)
  case 1
  then show ?case by simp
next
  case (2 cs)
  from 2[of "i - 1"] show ?case by (cases i) auto
next
  case (3 a cs)
  from 3[of "i - 1"] show ?case by (cases i) auto
qed

lemma distinct_count_le1: "distinct xs \<Longrightarrow> length (filter (\<lambda>k. k = a) xs) \<le> 1"
  by (induction xs) (auto simp: filter_empty_conv)

section \<open>\<open>addChild\<close>\<close>

text \<open>Which branch \<open>addChild\<close> takes: \<open>IDX === -1\<close> exactly when no child has the key.\<close>

lemma addChild_branch:
  "findIndex (\<lambda>el. case el of None \<Rightarrow> False | Some e \<Rightarrow> key (objs h e) = k)
     (children (objs h n)) = - 1
     \<longleftrightarrow> k \<notin> set (child_keys h n)"
  unfolding findIndex_minus1_iff child_keys_def
  using child_test_iff[of "children (objs h n)" "\<lambda>a. key (objs h a)" k] by blast

lemma addChild_append:
  assumes "key (objs h c) \<notin> set (child_keys h n)"
  shows "addChild n (Some c) h =
           upd c (\<lambda>ob. ob\<lparr>parent := Some n\<rparr>)
             (upd n (\<lambda>ob. ob\<lparr>children := children ob @ [Some c]\<rparr>) h)"
  using assms by (simp add: addChild_def addChild_branch)

lemma addChild_replace:
  assumes "key (objs h c) \<in> set (child_keys h n)"
  shows "\<exists>i e. i < length (children (objs h n)) \<and> children (objs h n) ! i = Some e \<and>
             key (objs h e) = key (objs h c) \<and>
             addChild n (Some c) h = upd n (\<lambda>ob. ob\<lparr>children := (children ob)[i := Some c]\<rparr>) h"
proof -
  let ?P = "\<lambda>el. case el of None \<Rightarrow> False | Some e \<Rightarrow> key (objs h e) = key (objs h c)"
  let ?cs = "children (objs h n)"
  from assms have ne: "findIndex ?P ?cs \<noteq> - 1"
    by (simp add: addChild_branch)
  from findIndex_found[OF ne]
  have lt: "nat (findIndex ?P ?cs) < length ?cs" and P: "?P (?cs ! nat (findIndex ?P ?cs))"
    by simp_all
  from P obtain e where e: "?cs ! nat (findIndex ?P ?cs) = Some e" "key (objs h e) = key (objs h c)"
    by (auto split: option.splits)
  have "addChild n (Some c) h =
          upd n (\<lambda>ob. ob\<lparr>children := (children ob)[nat (findIndex ?P ?cs) := Some c]\<rparr>) h"
    using ne by (simp add: addChild_def)
  with lt e show ?thesis by blast
qed

lemma key_addChild [simp]: "key (objs (addChild n c h) a) = key (objs h a)"
  by (auto simp: addChild_def Let_def split: option.splits)

lemma child_keys_addChild:
  "child_keys (addChild n (Some c) h) n =
     (if key (objs h c) \<in> set (child_keys h n) then child_keys h n
      else child_keys h n @ [key (objs h c)])"
proof (cases "key (objs h c) \<in> set (child_keys h n)")
  case True
  from addChild_replace[OF True] obtain i e where
    ie: "i < length (children (objs h n))" "children (objs h n) ! i = Some e"
        "key (objs h e) = key (objs h c)"
        "addChild n (Some c) h = upd n (\<lambda>ob. ob\<lparr>children := (children ob)[i := Some c]\<rparr>) h"
    by blast
  have "child_keys (addChild n (Some c) h) n = child_keys h n"
    unfolding child_keys_def key_addChild
    by (simp add: ie(4) keys_replace[OF ie(1,2), of "\<lambda>a. key (objs h a)" c, OF ie(3)])
  with True show ?thesis by simp
next
  case False
  have "child_keys (addChild n (Some c) h) n = child_keys h n @ [key (objs h c)]"
    unfolding child_keys_def key_addChild
    by (simp add: addChild_append[OF False])
  with False show ?thesis by simp
qed

text \<open>
  Claim C5. On a node whose children have pairwise distinct keys, \<open>addChild(null)\<close>
  changes nothing; \<open>addChild(c)\<close> appends \<open>c\<close> at the end of the sequence and sets
  \<open>c.parent\<close> to the node when no child has the key of \<open>c\<close>, and puts \<open>c\<close> in the place
  of the child that has this key otherwise; afterwards at most one child has the key of \<open>c\<close>.
\<close>

theorem addChild_spec:
  assumes "distinct (child_keys h n)"
  shows "addChild n None h = h \<and>
         (key (objs h c) \<notin> set (child_keys h n) \<longrightarrow>
            children (objs (addChild n (Some c) h) n) = children (objs h n) @ [Some c] \<and>
            parent (objs (addChild n (Some c) h) c) = Some n) \<and>
         (key (objs h c) \<in> set (child_keys h n) \<longrightarrow>
            (\<exists>i e. i < length (children (objs h n)) \<and> children (objs h n) ! i = Some e \<and>
                   key (objs h e) = key (objs h c) \<and>
                   children (objs (addChild n (Some c) h) n) = (children (objs h n))[i := Some c])) \<and>
         length (filter (\<lambda>k. k = key (objs h c)) (child_keys (addChild n (Some c) h) n)) \<le> 1"
proof (intro conjI impI)
  show "addChild n None h = h"
    by (simp add: addChild_def)
next
  assume a: "key (objs h c) \<notin> set (child_keys h n)"
  show "children (objs (addChild n (Some c) h) n) = children (objs h n) @ [Some c]"
    by (simp add: addChild_append[OF a])
next
  assume a: "key (objs h c) \<notin> set (child_keys h n)"
  show "parent (objs (addChild n (Some c) h) c) = Some n"
    by (simp add: addChild_append[OF a])
next
  assume a: "key (objs h c) \<in> set (child_keys h n)"
  from addChild_replace[OF a]
  show "\<exists>i e. i < length (children (objs h n)) \<and> children (objs h n) ! i = Some e \<and>
              key (objs h e) = key (objs h c) \<and>
              children (objs (addChild n (Some c) h) n) = (children (objs h n))[i := Some c]"
    by (elim exE conjE, intro exI conjI) (assumption, assumption, assumption, simp)
next
  from assms have "distinct (child_keys (addChild n (Some c) h) n)"
    by (simp add: child_keys_addChild)
  then show "length (filter (\<lambda>k. k = key (objs h c)) (child_keys (addChild n (Some c) h) n)) \<le> 1"
    by (rule distinct_count_le1)
qed

text \<open>
  The theorem at work on \<open>family\<close>: \<open>n.addChild(c)\<close> appends, and \<open>n.addChild(b2)\<close>
  puts \<open>b2\<close> where \<open>b\<close> was.
\<close>

theorem addChild_spec_witness:
  "distinct (child_keys family 2) \<and>
   key (objs family 4) \<notin> set (child_keys family 2) \<and>
   children (objs (addChild 2 (Some 4) family) 2) = [Some 0, Some 1, Some 4] \<and>
   parent (objs (addChild 2 (Some 4) family) 4) = Some 2 \<and>
   key (objs family 3) \<in> set (child_keys family 2) \<and>
   children (objs (addChild 2 (Some 3) family) 2) = [Some 0, Some 3]"
proof -
  have d: "distinct (child_keys family 2)"
    by (simp add: family_simps)
  have m: "key (objs family 3) \<in> set (child_keys family 2)"
    by (simp add: family_simps)
  with addChild_spec[OF d, of 3]
  have "\<exists>i e. i < length (children (objs family 2)) \<and> children (objs family 2) ! i = Some e \<and>
              key (objs family e) = key (objs family 3) \<and>
              children (objs (addChild 2 (Some 3) family) 2) = (children (objs family 2))[i := Some 3]"
    by blast
  then obtain i e where
    raw: "i < length (children (objs family 2))" "children (objs family 2) ! i = Some e"
         "key (objs family e) = key (objs family 3)"
         "children (objs (addChild 2 (Some 3) family) 2) = (children (objs family 2))[i := Some 3]"
    by blast
  then have
    ie: "i < 2" "[Some 0, Some 1] ! i = Some e" "key (objs family e) = ''b''"
        "children (objs (addChild 2 (Some 3) family) 2) = [Some 0, Some 1][i := Some 3]"
    by (simp_all add: family_simps)
  from ie(1) have "i = 0 \<or> i = 1" by auto
  with ie(2,3) have "i = 1" by (auto simp: family_simps)
  with ie(4) have "children (objs (addChild 2 (Some 3) family) 2) = [Some 0, Some 3]" by simp
  with d addChild_spec[OF d, of 4] show ?thesis by (simp add: family_simps)
qed

text \<open>
  Claim C7, as amended. In the replace branch of \<open>addChild\<close> the parent of the new child
  is left as it was; in the append branch it becomes the node. The key, the props and the
  state of the node are the same after the call, and so is its parent, unless the node is
  appended to its own children.
\<close>

theorem addChild_frame:
  "(key (objs h c) \<in> set (child_keys h n) \<longrightarrow>
      parent (objs (addChild n (Some c) h) c) = parent (objs h c)) \<and>
   (key (objs h c) \<notin> set (child_keys h n) \<longrightarrow>
      parent (objs (addChild n (Some c) h) c) = Some n) \<and>
   key (objs (addChild n (Some c) h) n) = key (objs h n) \<and>
   props (objs (addChild n (Some c) h) n) = props (objs h n) \<and>
   state (objs (addChild n (Some c) h) n) = state (objs h n) \<and>
   (c \<noteq> n \<or> key (objs h c) \<in> set (child_keys h n) \<longrightarrow>
      parent (objs (addChild n (Some c) h) n) = parent (objs h n))"
proof (cases "key (objs h c) \<in> set (child_keys h n)")
  case True
  from addChild_replace[OF True] obtain i where
    "addChild n (Some c) h = upd n (\<lambda>ob. ob\<lparr>children := (children ob)[i := Some c]\<rparr>) h"
    by blast
  with True show ?thesis by simp
next
  case False
  then show ?thesis by (simp add: addChild_append[OF False])
qed

theorem addChild_frame_witness:
  "key (objs family 3) \<in> set (child_keys family 2) \<and>
   parent (objs (addChild 2 (Some 3) family) 3) = parent (objs family 3) \<and>
   key (objs family 4) \<notin> set (child_keys family 2) \<and>
   parent (objs (addChild 2 (Some 4) family) 4) = Some 2 \<and>
   parent (objs (addChild 2 (Some 4) family) 2) = parent (objs family 2)"
  using addChild_frame[of family 3 2] addChild_frame[of family 4 2]
  by (simp add: family_simps)

text \<open>
  The claim as it was stated fails for \<open>n.addChild(n)\<close> on a node without children: the
  call takes the append branch, and \<open>component.parent = this\<close> writes the parent of the
  node itself.
\<close>

theorem addChild_self_counterexample:
  "key (objs fresh_node 0) \<notin> set (child_keys fresh_node 0) \<and>
   parent (objs (addChild 0 (Some 0) fresh_node) 0) \<noteq> parent (objs fresh_node 0)"
  by (simp add: fresh_node_def constructor_def empty_heap_def child_keys_def addChild_def)

section \<open>\<open>removeChild\<close> and \<open>removeChildren\<close>\<close>

text \<open>
  The test of the string branch compares the key of a child with \<open>component.key\<close>, which
  is \<open>undefined\<close> there, so no child passes it and nothing is ever removed.
\<close>

lemma removeChild_noop: "removeChild this a h = h"
proof (cases a)
  case ArgNull
  then show ?thesis by simp
next
  case (ArgString s)
  then show ?thesis
    by (simp add: string_key_def findIndex_none split: option.splits)
next
  case (ArgComponent c)
  then show ?thesis
    by (simp add: string_key_def findIndex_none split: option.splits)
qed

text \<open>
  Claim C1 says that \<open>removeChild(k)\<close> removes the child whose key is \<open>k\<close>, keeps the
  others in their order, and does nothing when no child has this key. The code does not
  remove: on \<open>family\<close>, where the children of \<open>n\<close> are \<open>a\<close> and \<open>b\<close>, both
  \<open>n.removeChild('a')\<close> and \<open>n.removeChild(a)\<close> leave \<open>a\<close> among the children.
\<close>

theorem removeChild_by_key_keeps_child:
  "child_keys family 2 = [''a'', ''b''] \<and>
   children (objs family 2) = [Some 0, Some 1] \<and>
   children (objs (removeChild 2 (ArgString ''a'') family) 2) = [Some 0, Some 1] \<and>
   children (objs (removeChild 2 (ArgComponent 0) family) 2) = [Some 0, Some 1]"
  by (simp add: family_def constructor_def empty_heap_def child_keys_def string_key_def)

text \<open>
  Claim C8. \<open>removeChildren()\<close> leaves the node with an empty child sequence, and the
  parent of every object, a removed child among them, is what it was before.
\<close>

theorem removeChildren_spec:
  "children (objs (removeChildren n h) n) = [] \<and>
   (\<forall>a. parent (objs (removeChildren n h) a) = parent (objs h a))"
  by (simp add: removeChildren_def)

section \<open>Distinct keys along a run\<close>

lemma children_addChild_other:
  "m \<noteq> n \<Longrightarrow> children (objs (addChild n c h) m) = children (objs h m)"
  by (auto simp: addChild_def Let_def split: option.splits)

lemma next_addr_addChild [simp]: "next_addr (addChild n c h) = next_addr h"
  by (auto simp: addChild_def Let_def split: option.splits)

lemma entries_addChild:
  "set (entries (children (objs (addChild n (Some c) h) m)))
     \<subseteq> insert c (set (entries (children (objs h m))))"
proof (cases "m = n")
  case False
  then show ?thesis by (auto simp: children_addChild_other)
next
  case True
  show ?thesis
  proof (cases "key (objs h c) \<in> set (child_keys h n)")
    case False
    then show ?thesis unfolding True by (auto simp: addChild_append)
  next
    case t: True
    from addChild_replace[OF t] obtain i where
      "addChild n (Some c) h = upd n (\<lambda>ob. ob\<lparr>children := (children ob)[i := Some c]\<rparr>) h" by blast
    then show ?thesis unfolding True using set_entries_update[of "children (objs h n)" i c] by simp
  qed
qed

lemma keys_inv_addChild:
  assumes "keys_inv h" and "\<And>a. c = Some a \<Longrightarrow> a < next_addr h"
  shows "keys_inv (addChild n c h)"
proof (cases c)
  case None
  then show ?thesis using assms by (simp add: addChild_def)
next
  case (Some a)
  have d: "distinct (child_keys (addChild n (Some a) h) m)" for m
  proof (cases "m = n")
    case True with assms(1) show ?thesis by (simp add: child_keys_addChild keys_inv_def)
  next
    case False 
    then have "child_keys (addChild n (Some a) h) m = child_keys h m"
      by (simp add: child_keys_def children_addChild_other)
    with assms(1) show ?thesis by (simp add: keys_inv_def)
  qed
  have "x < next_addr h" if "x \<in> set (entries (children (objs (addChild n (Some a) h) m)))" for x m
    using that entries_addChild[of n a h m] assms Some by (auto simp: keys_inv_def)
  with d show ?thesis unfolding Some keys_inv_def by simp
qed

lemma next_addr_addChildren [simp]: "next_addr (addChildren n cs h) = next_addr h"
  by (induction cs arbitrary: h) auto

lemma keys_inv_addChildren:
  "keys_inv h \<Longrightarrow> (\<forall>a\<in>set (entries cs). a < next_addr h) \<Longrightarrow> keys_inv (addChildren n cs h)"
proof (induction cs arbitrary: h)
  case Nil
  then show ?case by simp
next
  case (Cons c cs)
  have "keys_inv (addChild n c h)" using Cons.prems by (intro keys_inv_addChild) auto
  moreover have "\<forall>a\<in>set (entries cs). a < next_addr (addChild n c h)"
    using Cons.prems(2) by (cases c) auto
  ultimately show ?case using Cons.IH by simp
qed

lemma keys_inv_removeChildren: "keys_inv h \<Longrightarrow> keys_inv (removeChildren n h)"
proof -
  assume a: "keys_inv h"
  have k: "key (objs (removeChildren n h) a) = key (objs h a)" for a
    by (simp add: removeChildren_def)
  have c: "children (objs (removeChildren n h) m) = (if m = n then [] else children (objs h m))" for m
    by (simp add: removeChildren_def)
  have x: "next_addr (removeChildren n h) = next_addr h"
    by (simp add: removeChildren_def)
  from a show ?thesis unfolding keys_inv_def child_keys_def k c x by simp
qed

lemma keys_inv_constructor:
  assumes "keys_inv h" 
    and wf: "\<forall>a\<in>set (op_refs (New k p cs)). a < next_addr h"
    and dn: "distinct_new (New k p cs) h"
  shows "keys_inv (snd (constructor k p cs h))"
proof -
  let ?h = "snd (constructor k p cs h)"
  let ?t = "next_addr h"
  let ?cs = "case cs of None \<Rightarrow> [] | Some cs' \<Rightarrow> cs'"
  have nx: "next_addr ?h = Suc ?t" by (simp add: constructor_def Let_def)
  have ch: "children (objs ?h m) = (if m = ?t then ?cs else children (objs h m))" for m
    by (simp add: constructor_def Let_def)
  have ky: "a < ?t \<Longrightarrow> key (objs ?h a) = key (objs h a)" for a
    by (simp add: constructor_def Let_def)
  have old: "\<forall>a\<in>set (entries (children (objs ?h m))). a < ?t" for m
    unfolding ch using assms(1) wf by (cases cs) (auto simp: keys_inv_def)
  have "child_keys ?h m = map (\<lambda>a. key (objs h a)) (entries (children (objs ?h m)))" for m
    unfolding child_keys_def using old[of m] ky by (intro map_cong) auto
  then have "distinct (child_keys ?h m)" for m
    unfolding ch using assms(1) dn by (cases cs) (auto simp: keys_inv_def child_keys_def)
  then show ?thesis unfolding keys_inv_def nx using old less_Suc_eq by blast
qed

lemma keys_inv_exec:
  "keys_inv h \<Longrightarrow> \<forall>a\<in>set (op_refs x). a < next_addr h \<Longrightarrow> distinct_new x h \<Longrightarrow> keys_inv (exec x h)"
proof (cases x)
  case (New k p cs)
  assume "keys_inv h" "\<forall>a\<in>set (op_refs x). a < next_addr h" "distinct_new x h"
  then show ?thesis unfolding New by (simp only: exec.simps keys_inv_constructor)
next
  case (AddChild n c)
  assume "keys_inv h" "\<forall>a\<in>set (op_refs x). a < next_addr h" "distinct_new x h"
  then show ?thesis unfolding AddChild by (auto intro: keys_inv_addChild)
next
  case (AddChildren n cs)
  assume "keys_inv h" "\<forall>a\<in>set (op_refs x). a < next_addr h" "distinct_new x h"
  then show ?thesis unfolding AddChildren by (auto intro: keys_inv_addChildren)
next
  case (RemoveChild n a)
  assume "keys_inv h" "\<forall>a\<in>set (op_refs x). a < next_addr h" "distinct_new x h"
  then show ?thesis unfolding RemoveChild by (simp add: removeChild_noop)
next
  case (RemoveChildren n)
  assume "keys_inv h" "\<forall>a\<in>set (op_refs x). a < next_addr h" "distinct_new x h"
  then show ?thesis unfolding RemoveChildren by (simp add: keys_inv_removeChildren)
qed

lemma keys_inv_run:
  "keys_inv h \<Longrightarrow> well_formed ops h \<Longrightarrow> distinct_at_construction ops h \<Longrightarrow> keys_inv (run ops h)"
  by (induction ops arbitrary: h) (auto simp: keys_inv_exec)

lemma keys_inv_empty: "keys_inv empty_heap"
  by (simp add: keys_inv_def empty_heap_def blank_def child_keys_def)

text \<open>
  Claim C6, as amended. From the empty heap, along any run of constructions and child
  operations in which every array handed to the constructor holds components with
  pairwise distinct keys, the keys of the children of every node are pairwise distinct.
\<close>

theorem distinct_keys_invariant:
  assumes "well_formed ops empty_heap" and "distinct_at_construction ops empty_heap"
  shows "distinct (child_keys (run ops empty_heap) n)"
  using keys_inv_run[OF keys_inv_empty assms] by (simp add: keys_inv_def)

theorem distinct_keys_invariant_witness:
  "well_formed script empty_heap \<and> distinct_at_construction script empty_heap \<and>
   distinct (child_keys (run script empty_heap) 2)"
proof -
  have w: "well_formed script empty_heap"
    by (simp add: script_def constructor_def empty_heap_def addChild_def string_key_def)
  have d: "distinct_at_construction script empty_heap"
    by (simp add: script_def constructor_def empty_heap_def addChild_def string_key_def)
  from w d distinct_keys_invariant[OF w d, of 2] show ?thesis by simp
qed


text \<open>
  Without the condition on the constructor the claim fails: the constructor stores the
  array it is given as it is.
\<close>

theorem constructor_duplicates_counterexample:
  "well_formed twins empty_heap \<and> \<not> distinct (child_keys (run twins empty_heap) 2)"
  by (simp add: twins_def constructor_def empty_heap_def child_keys_def)

section \<open>The update protocol: \<open>setState\<close>, \<open>forceUpdate\<close> and the \<open>state\<close> setter\<close>

lemma fresh_simps:
  "props (objs fresh_node 0) = Map.empty" "state (objs fresh_node 0) = Map.empty"
  "key (objs fresh_node 0) = []" "children (objs fresh_node 0) = []"
  by (simp_all add: fresh_node_def constructor_def empty_heap_def)

text \<open>
  Claim C3. When \<open>shouldComponentUpdate\<close> returns false for the candidate state, the
  call invokes it and, if a callback was given, the callback, and nothing else: no
  \<open>componentWillUpdate\<close>, no \<open>render\<close>, no \<open>componentDidUpdate\<close>. The state of the node is
  committed all the same: in the heap the call returns (the heap it hands to the
  callback, when there is one) the state is the previous state merged with the partial
  state.
\<close>

theorem setState_vetoed:
  fixes M n ns cb h
  defines "prev \<equiv> state (objs h n)"
      and "new \<equiv> state (objs h n) ++ ns"
      and "p \<equiv> props (objs h n)"
  assumes veto: "m_shouldComponentUpdate M n p new h = (False, h1)"
  defines "hc \<equiv> upd n (\<lambda>ob. ob\<lparr>state := new\<rparr>) h1"
  shows "state (objs hc n) = new \<and>
         setState M n ns cb h =
           Inr (case cb of
                  None \<Rightarrow> (hc, [ShouldComponentUpdate n p new])
                | Some f \<Rightarrow> (f prev (props (objs hc n)) hc,
                             [ShouldComponentUpdate n p new, Callback prev (props (objs hc n))]))"
  using veto unfolding prev_def new_def p_def hc_def
  by (simp add: setState_def Let_def split: option.splits)

theorem setState_vetoed_witness:
  "m_shouldComponentUpdate quiet_methods 0 (props (objs fresh_node 0))
      (state (objs fresh_node 0) ++ [''quiet'' \<mapsto> JBool True]) fresh_node = (False, fresh_node) \<and>
   state (objs (upd 0 (\<lambda>ob. ob\<lparr>state := [''quiet'' \<mapsto> JBool True]\<rparr>) fresh_node) 0)
      = [''quiet'' \<mapsto> JBool True] \<and>
   setState quiet_methods 0 [''quiet'' \<mapsto> JBool True] None fresh_node =
      Inr (upd 0 (\<lambda>ob. ob\<lparr>state := [''quiet'' \<mapsto> JBool True]\<rparr>) fresh_node,
           [ShouldComponentUpdate 0 Map.empty [''quiet'' \<mapsto> JBool True]])"
proof -
  have v: "m_shouldComponentUpdate quiet_methods 0 (props (objs fresh_node 0))
      (state (objs fresh_node 0) ++ [''quiet'' \<mapsto> JBool True]) fresh_node = (False, fresh_node)"
    by (simp add: quiet_methods_def)
  from v setState_vetoed[OF v, of None] show ?thesis by (simp add: fresh_simps)
qed

text \<open>
  Claim C4. When \<open>shouldComponentUpdate\<close> returns true (and the class has a \<open>render\<close>),
  the call invokes, in this order, \<open>componentWillUpdate\<close> with the current props and the
  candidate state, \<open>render(true)\<close> once, and \<open>componentDidUpdate\<close> with the current props
  and the previous state; it then commits the candidate state, and last invokes the
  callback, if there is one, with the previous state and the current props, on the heap
  that holds the committed state.
\<close>

theorem setState_update_order:
  fixes M n ns cb h
  defines "prev \<equiv> state (objs h n)"
      and "new \<equiv> state (objs h n) ++ ns"
      and "p0 \<equiv> props (objs h n)"
  assumes go: "m_shouldComponentUpdate M n p0 new h = (True, h1)"
      and rend: "m_render M n = Some r"
  defines "h2 \<equiv> m_componentWillUpdate M n (props (objs h1 n)) new h1"
  defines "h3 \<equiv> r True h2"
  defines "h4 \<equiv> m_componentDidUpdate M n (props (objs h3 n)) prev h3"
  defines "h5 \<equiv> upd n (\<lambda>ob. ob\<lparr>state := new\<rparr>) h4"
  defines "evs \<equiv> [ShouldComponentUpdate n p0 new,
                   ComponentWillUpdate n (props (objs h1 n)) new,
                   Render n True,
                   ComponentDidUpdate n (props (objs h3 n)) prev]"
  shows "setState M n ns cb h =
           Inr (case cb of
                  None \<Rightarrow> (h5, evs)
                | Some f \<Rightarrow> (f prev (props (objs h5 n)) h5, evs @ [Callback prev (props (objs h5 n))]))"
  using go rend unfolding prev_def new_def p0_def h2_def h3_def h4_def h5_def evs_def
  by (simp add: setState_def Let_def split: option.splits)

text \<open>
  On \<open>seeded\<close>, with the class \<open>painting_methods\<close>: \<open>node.setState({y: 2}, cb)\<close>, where
  \<open>cb\<close> sets the parent of the node.
\<close>

theorem setState_update_order_witness:
  "m_shouldComponentUpdate painting_methods 0 (props (objs seeded 0))
      (state (objs seeded 0) ++ [''y'' \<mapsto> JNum 2]) seeded = (True, seeded) \<and>
   m_render painting_methods 0 = Some (\<lambda>forced h. h) \<and>
   setState painting_methods 0 [''y'' \<mapsto> JNum 2]
      (Some (\<lambda>prevState currentProps h. set_parent 0 (Some 0) h)) seeded =
      Inr (set_parent 0 (Some 0)
             (upd 0 (\<lambda>ob. ob\<lparr>state := [''x'' \<mapsto> JNum 1, ''y'' \<mapsto> JNum 2]\<rparr>) seeded),
           [ShouldComponentUpdate 0 Map.empty [''x'' \<mapsto> JNum 1, ''y'' \<mapsto> JNum 2],
            ComponentWillUpdate 0 Map.empty [''x'' \<mapsto> JNum 1, ''y'' \<mapsto> JNum 2],
            Render 0 True,
            ComponentDidUpdate 0 Map.empty [''x'' \<mapsto> JNum 1],
            Callback [''x'' \<mapsto> JNum 1] Map.empty])"
proof -
  have g: "m_shouldComponentUpdate painting_methods 0 (props (objs seeded 0))
      (state (objs seeded 0) ++ [''y'' \<mapsto> JNum 2]) seeded = (True, seeded)"
    by (simp add: painting_methods_def Component_methods_def shouldComponentUpdate_def)
  have r: "m_render painting_methods 0 = Some (\<lambda>forced h. h)"
    by (simp add: painting_methods_def)
  have s: "state (objs seeded 0) ++ [''y'' \<mapsto> JNum 2] = [''x'' \<mapsto> JNum 1, ''y'' \<mapsto> JNum 2]"
    by (simp add: seeded_def)
  have p: "props (objs seeded 0) = Map.empty" "state (objs seeded 0) = [''x'' \<mapsto> JNum 1]"
    by (simp_all add: seeded_def fresh_simps)
  from g r
    setState_update_order[OF g r, of "Some (\<lambda>prevState currentProps h. set_parent 0 (Some 0) h)"]
  show ?thesis
    by (simp add: s p painting_methods_def Component_methods_def componentWillUpdate_def
          componentDidUpdate_def)
qed

text \<open>
  Whatever the overridable methods do, the commit comes after them and writes the merge
  of the state the call found with the partial state.
\<close>

lemma setState_state:
  assumes "m_render M n = Some r"
      and "\<forall>f. cb = Some f \<longrightarrow> (\<forall>a b g. state (objs (f a b g) n) = state (objs g n))"
  shows "\<exists>h' evs. setState M n ns cb h = Inr (h', evs) \<and> state (objs h' n) = state (objs h n) ++ ns"
  using assms by (cases cb) (simp_all add: setState_def Let_def split: prod.splits)

text \<open>
  Claim C2. After a sequence of \<open>setState\<close> calls on a node, the state of the node is
  the left-to-right merge of its state before the sequence (empty for a new node) with
  all the partial states, whatever \<open>shouldComponentUpdate\<close> answered along the way. The class has a
  \<open>render\<close>, and the callbacks, if any, do not write the state of the node.
\<close>

theorem setStates_merge:
  assumes "m_render M n = Some r"
      and "\<forall>(ns, cb)\<in>set calls. \<forall>f. cb = Some f \<longrightarrow> (\<forall>a b g. state (objs (f a b g) n) = state (objs g n))"
  shows "\<exists>h' evs. setStates M n calls h = Inr (h', evs) \<and>
           state (objs h' n) = foldl (++) (state (objs h n)) (map fst calls)"
  using assms(2)
proof (induction calls arbitrary: h)
  case Nil
  then show ?case by simp
next
  case (Cons c calls)
  obtain ns cb where c: "c = (ns, cb)" by (cases c)
  from Cons.prems c
  have "\<forall>f. cb = Some f \<longrightarrow> (\<forall>a b g. state (objs (f a b g) n) = state (objs g n))"
    by simp
  from setState_state[OF assms(1) this, of ns h] obtain h' evs where
    s: "setState M n ns cb h = Inr (h', evs)" "state (objs h' n) = state (objs h n) ++ ns"
    by blast
  from Cons.prems have "\<forall>(ns, cb)\<in>set calls. \<forall>f. cb = Some f \<longrightarrow> (\<forall>a b g. state (objs (f a b g) n) = state (objs g n))"
    by simp
  from Cons.IH[OF this, of h'] obtain h'' evs' where
    r: "setStates M n calls h' = Inr (h'', evs')"
       "state (objs h'' n) = foldl (++) (state (objs h' n)) (map fst calls)"
    by blast
  from s r show ?case by (simp add: c)
qed

theorem setStates_merge_witness:
  "m_render quiet_methods 0 = Some (\<lambda>forced h. h) \<and>
   (\<forall>g. state (objs (set_parent 0 (Some 0) g) 0) = state (objs g 0)) \<and>
   (\<exists>h' evs. setStates quiet_methods 0 three_calls fresh_node = Inr (h', evs) \<and>
      state (objs h' 0) ''x'' = Some (JNum 2) \<and> state (objs h' 0) ''y'' = Some (JNum 3) \<and>
      state (objs h' 0) ''quiet'' = Some (JBool True))"
proof -
  have r: "m_render quiet_methods 0 = Some (\<lambda>forced h. h)"
    by (simp add: quiet_methods_def painting_methods_def)
  have k: "\<forall>g. state (objs (set_parent 0 (Some 0) g) 0) = state (objs g 0)"
    by (simp add: set_parent_def)
  then have c: "\<forall>(ns, cb)\<in>set three_calls. \<forall>f. cb = Some f \<longrightarrow>
       (\<forall>a b g. state (objs (f a b g) 0) = state (objs g 0))"
    by (simp add: three_calls_def)
  from setStates_merge[OF r c, of fresh_node] obtain h' evs where
    "setStates quiet_methods 0 three_calls fresh_node = Inr (h', evs)"
    "state (objs h' 0) = foldl (++) (state (objs fresh_node 0)) (map fst three_calls)"
    by blast
  with r k show ?thesis by (auto simp: three_calls_def fresh_simps)
qed

text \<open>
  Claim C9, as amended. \<open>forceUpdate()\<close> invokes \<open>render(true)\<close> once and no other
  method, and the heap it returns is the heap \<open>render\<close> returns: \<open>forceUpdate\<close> itself
  assigns nothing. So each of the state, props, key and children of the node is the same
  after the call unless \<open>render\<close> changes it.
\<close>

theorem forceUpdate_spec:
  assumes "m_render M n = Some r"
  shows "forceUpdate M n h = Inr (r True h, [Render n True]) \<and>
         (\<exists>h' evs. forceUpdate M n h = Inr (h', evs) \<and>
            (state (objs (r True h) n) = state (objs h n) \<longrightarrow>
               state (objs h' n) = state (objs h n)) \<and>
            (props (objs (r True h) n) = props (objs h n) \<longrightarrow>
               props (objs h' n) = props (objs h n)) \<and>
            (key (objs (r True h) n) = key (objs h n) \<longrightarrow>
               key (objs h' n) = key (objs h n)) \<and>
            (children (objs (r True h) n) = children (objs h n) \<longrightarrow>
               children (objs h' n) = children (objs h n)))"
  using assms by (simp add: forceUpdate_def)

text \<open>
  With a \<open>render\<close> that leaves the heap alone nothing changes; with the \<open>render\<close> of
  \<open>clearing_methods\<close> the state, props and key of \<open>n\<close> in \<open>family\<close> are kept.
\<close>

theorem forceUpdate_spec_witness:
  "m_render painting_methods 0 = Some (\<lambda>forced h. h) \<and>
   forceUpdate painting_methods 0 seeded = Inr (seeded, [Render 0 True]) \<and>
   m_render clearing_methods 2 = Some (\<lambda>forced h. removeChildren 2 h) \<and>
   state (objs (removeChildren 2 family) 2) = state (objs family 2) \<and>
   (\<exists>h' evs. forceUpdate clearing_methods 2 family = Inr (h', evs) \<and>
      evs = [Render 2 True] \<and> state (objs h' 2) = state (objs family 2))"
proof -
  have p: "m_render painting_methods 0 = Some (\<lambda>forced h. h)"
    by (simp add: painting_methods_def)
  have c: "m_render clearing_methods 2 = Some (\<lambda>forced h. removeChildren 2 h)"
    by (simp add: clearing_methods_def)
  have k: "state (objs (removeChildren 2 family) 2) = state (objs family 2)"
    by (simp add: removeChildren_def)
  from forceUpdate_spec[OF c, of family] k
  have "\<exists>h' evs. forceUpdate clearing_methods 2 family = Inr (h', evs) \<and>
          evs = [Render 2 True] \<and> state (objs h' 2) = state (objs family 2)"
    by auto
  with p c k forceUpdate_spec[OF p, of seeded] show ?thesis
    by simp
qed

text \<open>
  The claim as it was stated, that the children of the node are the same after every
  \<open>forceUpdate()\<close>, fails for a class whose \<open>render\<close> calls a child operation: with
  \<open>clearing_methods\<close>, \<open>n.forceUpdate()\<close> on \<open>family\<close> leaves \<open>n\<close> without children.
\<close>

theorem forceUpdate_render_counterexample:
  "m_render clearing_methods 2 = Some (\<lambda>forced h. removeChildren 2 h) \<and>
   children (objs family 2) = [Some 0, Some 1] \<and>
   forceUpdate clearing_methods 2 family = Inr (removeChildren 2 family, [Render 2 True]) \<and>
   children (objs (removeChildren 2 family) 2) = [] \<and>
   children (objs (removeChildren 2 family) 2) \<noteq> children (objs family 2)"
  by (simp add: clearing_methods_def forceUpdate_def removeChildren_def family_simps)

text \<open>
  Claim C10. The assignment \<open>node.state = s\<close> is \<open>node.setState(s)\<close> without a callback:
  \<open>shouldComponentUpdate\<close> is asked, the hooks and \<open>render\<close> run if it allows, and the new state is the
  old state merged with \<open>s\<close>, not \<open>s\<close> alone.
\<close>

theorem set_state_merges:
  fixes M n s h
  defines "prev \<equiv> state (objs h n)"
  defines "new \<equiv> prev ++ s"
  defines "verdict \<equiv> m_shouldComponentUpdate M n (props (objs h n)) new h"
  assumes rend: "m_render M n = Some r"
  defines "h1 \<equiv> snd verdict"
  defines "h2 \<equiv> m_componentWillUpdate M n (props (objs h1 n)) new h1"
  defines "h3 \<equiv> r True h2"
  shows "set_state M n s h = setState M n s None h \<and>
         (\<exists>h'. set_state M n s h =
                 Inr (h', ShouldComponentUpdate n (props (objs h n)) new #
                          (if fst verdict
                           then [ComponentWillUpdate n (props (objs h1 n)) new,
                                 Render n True,
                                 ComponentDidUpdate n (props (objs h3 n)) prev]
                           else [])) \<and>
               state (objs h' n) = new)"
  using rend unfolding prev_def new_def verdict_def h1_def h2_def h3_def
  by (simp add: set_state_def setState_def Let_def split: prod.splits)

theorem set_state_merges_witness:
  "m_render painting_methods 0 = Some (\<lambda>forced h. h) \<and>
   (\<exists>h' evs. set_state painting_methods 0 [''y'' \<mapsto> JNum 2] seeded = Inr (h', evs) \<and>
      state (objs h' 0) ''x'' = Some (JNum 1) \<and> state (objs h' 0) ''y'' = Some (JNum 2))"
proof -
  have r: "m_render painting_methods 0 = Some (\<lambda>forced h. h)"
    by (simp add: painting_methods_def)
  from set_state_merges[OF r, of "[''y'' \<mapsto> JNum 2]" seeded] obtain h' evs where
    "set_state painting_methods 0 [''y'' \<mapsto> JNum 2] seeded = Inr (h', evs)"
    "state (objs h' 0) = state (objs seeded 0) ++ [''y'' \<mapsto> JNum 2]"
    by blast
  with r show ?thesis by (auto simp: seeded_def)
qed

end
